theory Spec2Isabelle
  imports Complex_Main "HOL-Library.List_Lexorder" "HOL-Library.Char_ord" "HOL-Library.Multiset"
begin

section \<open>Paths and strings\<close>

text \<open>
  Paths and file contents are byte strings. The functions of this section model the
  POSIX versions of \<^verbatim>\<open>os.path.join\<close>, \<^verbatim>\<open>os.path.splitext\<close>, \<^verbatim>\<open>str.lower\<close> (on ASCII letters, the
  only ones that can produce a member of the extension table) and \<^verbatim>\<open>str(int)\<close> for
  non-negative integers.
\<close>

type_synonym path = string
type_synonym bytes = string

definition join :: "path \<Rightarrow> path \<Rightarrow> path" where
  "join a b =
     (if b \<noteq> [] \<and> hd b = CHR ''/'' then b
      else if a = [] \<or> last a = CHR ''/'' then a @ b
      else a @ ''/'' @ b)"

primrec rfind_aux :: "string \<Rightarrow> char \<Rightarrow> nat \<Rightarrow> int \<Rightarrow> int" where
  "rfind_aux [] c i r = r"
| "rfind_aux (x # xs) c i r = rfind_aux xs c (Suc i) (if x = c then int i else r)"

definition rfind :: "string \<Rightarrow> char \<Rightarrow> int" where
  \<comment> \<open>\<^verbatim>\<open>p.rfind(c)\<close>: the highest index of \<open>c\<close>, or \<open>-1\<close>.\<close>
  "rfind p c = rfind_aux p c 0 (- 1)"

definition splitext :: "path \<Rightarrow> string \<times> string" where
  \<comment> \<open>\<^verbatim>\<open>genericpath._splitext(p, '/', None, '.')\<close>: the extension starts at the last dot of the
      last component, unless that component has only leading dots before it.\<close>
  "splitext p =
     (let sepIndex = rfind p CHR ''/'';
          dotIndex = rfind p CHR ''.''
      in if dotIndex > sepIndex \<and>
            list_ex (\<lambda>c. c \<noteq> CHR ''.'')
              (take (nat (dotIndex - (sepIndex + 1))) (drop (nat (sepIndex + 1)) p))
         then (take (nat dotIndex) p, drop (nat dotIndex) p)
         else (p, []))"

definition lower_char :: "char \<Rightarrow> char" where
  "lower_char c =
     (case map_of (zip ''ABCDEFGHIJKLMNOPQRSTUVWXYZ'' ''abcdefghijklmnopqrstuvwxyz'') c of
        Some d \<Rightarrow> d
      | None \<Rightarrow> c)"

definition lower :: "string \<Rightarrow> string" where
  "lower s = map lower_char s"

definition digit_char :: "nat \<Rightarrow> char" where
  "digit_char d = ''0123456789'' ! d"

fun str_nat :: "nat \<Rightarrow> string" where
  "str_nat n = (if n < 10 then [digit_char n] else str_nat (n div 10) @ [digit_char (n mod 10)])"

declare str_nat.simps [simp del]

section \<open>cleanup\_dataset.py\<close>

subsection \<open>The file system and the external libraries\<close>

text \<open>
  A regular file has its content, and two flags for what the operating system allows:
  whether it can be opened for reading, and whether \<^verbatim>\<open>os.remove\<close> succeeds on it. A file
  system maps a full path to its node; a path that is not mapped does not exist.
\<close>

record regular_file =
  content :: bytes
  readable :: bool
  removable :: bool

datatype node = Directory | Regular regular_file

type_synonym filesystem = "path \<rightharpoonup> node"

text \<open>
  \<^verbatim>\<open>hashlib.sha256\<close> is taken as a parameter: the fresh hasher, \<^verbatim>\<open>update\<close> and \<^verbatim>\<open>hexdigest\<close>.
  So is the decoder behind \<^verbatim>\<open>Image.open(path).verify()\<close>: \<open>verify_ok\<close> tells whether the bytes
  pass it without \<^verbatim>\<open>UnidentifiedImageError\<close> or \<^verbatim>\<open>OSError\<close>.
\<close>

record 'h hashlib =
  sha_new :: 'h
  sha_update :: "'h \<Rightarrow> bytes \<Rightarrow> 'h"
  sha_hexdigest :: "'h \<Rightarrow> string"

datatype cleanup_error =
    Not_A_Directory path  \<comment> \<open>\<^verbatim>\<open>sys.exit(1)\<close> after "is not a directory"\<close>
  | OS_Error path         \<comment> \<open>an uncaught \<^verbatim>\<open>OSError\<close> on this path\<close>

definition isfile :: "filesystem \<Rightarrow> path \<Rightarrow> bool" where
  "isfile fs p = (case fs p of Some (Regular f) \<Rightarrow> True | _ \<Rightarrow> False)"

definition isdir :: "filesystem \<Rightarrow> path \<Rightarrow> bool" where
  "isdir fs p = (case fs p of Some Directory \<Rightarrow> True | _ \<Rightarrow> False)"

definition open_rb :: "filesystem \<Rightarrow> path \<Rightarrow> cleanup_error + bytes" where
  \<comment> \<open>\<^verbatim>\<open>open(path, "rb")\<close> and the reads that follow: the content, or \<^verbatim>\<open>OSError\<close>.\<close>
  "open_rb fs p =
     (case fs p of
        Some (Regular f) \<Rightarrow> if readable f then Inr (content f) else Inl (OS_Error p)
      | _ \<Rightarrow> Inl (OS_Error p))"

definition os_remove :: "filesystem \<Rightarrow> path \<Rightarrow> cleanup_error + filesystem" where
  "os_remove fs p =
     (case fs p of
        Some (Regular f) \<Rightarrow> if removable f then Inr (fs(p := None)) else Inl (OS_Error p)
      | _ \<Rightarrow> Inl (OS_Error p))"

subsection \<open>compute\_hash and find\_duplicates\<close>

function read_blocks :: "nat \<Rightarrow> bytes \<Rightarrow> bytes list" where
  \<comment> \<open>\<^verbatim>\<open>iter(lambda: f.read(block_size), b"")\<close>: the blocks read until the first empty one.\<close>
  "read_blocks block_size data =
     (if take block_size data = [] then []
      else take block_size data # read_blocks block_size (drop block_size data))"
  by pat_completeness auto
termination
  by (relation "measure (\<lambda>(block_size, data). length data)") auto

declare read_blocks.simps [simp del]

definition compute_hash :: "'h hashlib \<Rightarrow> filesystem \<Rightarrow> path \<Rightarrow> cleanup_error + string" where
  "compute_hash hl fs p =
     (case open_rb fs p of
        Inl e \<Rightarrow> Inl e
      | Inr data \<Rightarrow>
          Inr (sha_hexdigest hl (foldl (sha_update hl) (sha_new hl) (read_blocks 65536 data))))"

fun find_duplicates_loop ::
  "'h hashlib \<Rightarrow> filesystem \<Rightarrow> (string \<rightharpoonup> path) \<Rightarrow> (path \<times> path) list \<Rightarrow> path list
     \<Rightarrow> cleanup_error + (path \<times> path) list" where
  "find_duplicates_loop hl fs hashes duplicates [] = Inr duplicates"
| "find_duplicates_loop hl fs hashes duplicates (p # ps) =
     (case compute_hash hl fs p of
        Inl e \<Rightarrow> Inl e
      | Inr file_hash \<Rightarrow>
          (case hashes file_hash of
             Some orig \<Rightarrow> find_duplicates_loop hl fs hashes (duplicates @ [(p, orig)]) ps
           | None \<Rightarrow> find_duplicates_loop hl fs (hashes(file_hash \<mapsto> p)) duplicates ps))"

definition find_duplicates ::
  "'h hashlib \<Rightarrow> filesystem \<Rightarrow> path list \<Rightarrow> cleanup_error + (path \<times> path) list" where
  "find_duplicates hl fs file_paths = find_duplicates_loop hl fs Map.empty [] file_paths"

subsection \<open>is\_corrupt\_image, gather\_all\_files and main\<close>

definition IMAGE_EXTENSIONS :: "string list" where
  "IMAGE_EXTENSIONS = [''.jpg'', ''.jpeg'', ''.png'', ''.bmp'', ''.gif'', ''.tiff'', ''.webp'']"

definition is_corrupt_image :: "(bytes \<Rightarrow> bool) \<Rightarrow> filesystem \<Rightarrow> path \<Rightarrow> bool" where
  \<comment> \<open>Both \<^verbatim>\<open>UnidentifiedImageError\<close> and \<^verbatim>\<open>OSError\<close> are caught and give \<open>True\<close>.\<close>
  "is_corrupt_image verify_ok fs p =
     (case open_rb fs p of
        Inl e \<Rightarrow> True
      | Inr data \<Rightarrow> \<not> verify_ok data)"

definition gather_all_files :: "filesystem \<Rightarrow> string list \<Rightarrow> path \<Rightarrow> path list" where
  \<comment> \<open>\<open>listing\<close> is what \<^verbatim>\<open>os.listdir(root_dir)\<close> returns, in the order of the operating system.\<close>
  "gather_all_files fs listing root_dir =
     sort (filter (isfile fs) (map (join root_dir) listing))"

text \<open>The lines that \<^verbatim>\<open>main\<close> prints, and the run of the two deletion loops.\<close>

datatype line =
    No_Findings
  | Summary_Duplicates nat
  | Summary_Corrupts nat
  | Dry_Run_Notice
  | Dup_Remove path path
  | Corrupt_Remove path
  | Delete_Failed path
  | Cleanup_Complete

record cleanup_result =
  duplicates :: "(path \<times> path) list"
  corrupts :: "path list"
  final_fs :: filesystem
  removed :: "path list"
  printed :: "line list"

record run_state =
  st_fs :: filesystem
  st_removed :: "path list"
  st_printed :: "line list"

definition try_remove :: "bool \<Rightarrow> path \<Rightarrow> run_state \<Rightarrow> run_state" where
  \<comment> \<open>\<^verbatim>\<open>if not args.dry_run: try: os.remove(p) except Exception: print error\<close>\<close>
  "try_remove dry_run p st =
     (if dry_run then st
      else (case os_remove (st_fs st) p of
              Inr fs' \<Rightarrow> st\<lparr>st_fs := fs', st_removed := st_removed st @ [p]\<rparr>
            | Inl e \<Rightarrow> st\<lparr>st_printed := st_printed st @ [Delete_Failed p]\<rparr>))"

fun process_duplicates :: "bool \<Rightarrow> (path \<times> path) list \<Rightarrow> run_state \<Rightarrow> run_state" where
  "process_duplicates dry_run [] st = st"
| "process_duplicates dry_run ((dup_path, orig_path) # rest) st =
     process_duplicates dry_run rest
       (try_remove dry_run dup_path
          (st\<lparr>st_printed := st_printed st @ [Dup_Remove dup_path orig_path]\<rparr>))"

fun process_corrupts :: "bool \<Rightarrow> path list \<Rightarrow> run_state \<Rightarrow> run_state" where
  "process_corrupts dry_run [] st = st"
| "process_corrupts dry_run (corrupt_path # rest) st =
     process_corrupts dry_run rest
       (try_remove dry_run corrupt_path
          (st\<lparr>st_printed := st_printed st @ [Corrupt_Remove corrupt_path]\<rparr>))"

definition scan ::
  "'h hashlib \<Rightarrow> (bytes \<Rightarrow> bool) \<Rightarrow> filesystem \<Rightarrow> path list
     \<Rightarrow> cleanup_error + (path \<times> path) list \<times> path list" where
  \<comment> \<open>The two detection passes of \<^verbatim>\<open>main\<close>, in its order.\<close>
  "scan hl verify_ok fs files =
     (case find_duplicates hl fs files of
        Inl e \<Rightarrow> Inl e
      | Inr dups \<Rightarrow>
          Inr (dups,
               filter (\<lambda>p. lower (snd (splitext p)) \<in> set IMAGE_EXTENSIONS
                            \<and> is_corrupt_image verify_ok fs p) files))"

definition main_cleanup ::
  "'h hashlib \<Rightarrow> (bytes \<Rightarrow> bool) \<Rightarrow> filesystem \<Rightarrow> string list \<Rightarrow> path \<Rightarrow> bool
     \<Rightarrow> cleanup_error + cleanup_result" where
  "main_cleanup hl verify_ok fs listing root_dir dry_run =
     (if \<not> isdir fs root_dir then Inl (Not_A_Directory root_dir)
      else
        (case scan hl verify_ok fs (gather_all_files fs listing root_dir) of
           Inl e \<Rightarrow> Inl e
         | Inr (dups, corr) \<Rightarrow>
             if dups = [] \<and> corr = [] then
               Inr \<lparr>duplicates = dups, corrupts = corr, final_fs = fs, removed = [],
                    printed = [No_Findings]\<rparr>
             else
               (let st0 = \<lparr>st_fs = fs, st_removed = [],
                            st_printed =
                              (if dups \<noteq> [] then [Summary_Duplicates (length dups)] else []) @
                              (if corr \<noteq> [] then [Summary_Corrupts (length corr)] else []) @
                              (if dry_run then [Dry_Run_Notice] else [])\<rparr>;
                    st1 = process_duplicates dry_run dups st0;
                    st2 = process_corrupts dry_run corr st1
                in Inr \<lparr>duplicates = dups, corrupts = corr, final_fs = st_fs st2,
                        removed = st_removed st2,
                        printed = st_printed st2 @ (if dry_run then [] else [Cleanup_Complete])\<rparr>)))"

section \<open>split\_dataset.py\<close>

text \<open>
  A Python float is modelled by the real number that its literal denotes, and float
  arithmetic by exact arithmetic; a float that is infinite or not a number never passes
  \<^verbatim>\<open>validate_ratios\<close>. The closed theorems below evaluate the program at inputs on which the
  rounded and the exact computation take the same branches and give the same counts.
\<close>

datatype split_error =
    Ratio_Sum_Error real   \<comment> \<open>\<^verbatim>\<open>sys.exit("Error: Ratios must sum to 1.0 (currently ...)")\<close>\<close>
  | No_Files_Found         \<comment> \<open>\<^verbatim>\<open>sys.exit("No files found in source directory.")\<close>\<close>
  | Index_Error            \<comment> \<open>an uncaught \<^verbatim>\<open>IndexError\<close> from \<^verbatim>\<open>files[i]\<close>\<close>
  | Makedirs_Error path    \<comment> \<open>an uncaught exception of \<^verbatim>\<open>os.makedirs\<close>\<close>

definition validate_ratios :: "real \<Rightarrow> real \<Rightarrow> real \<Rightarrow> split_error + unit" where
  "validate_ratios train val test =
     (let total = train + val + test
      in if \<not> \<bar>total - 1\<bar> < 1 / 1000000 then Inl (Ratio_Sum_Error total) else Inr ())"

definition gather_files :: "filesystem \<Rightarrow> string list \<Rightarrow> path \<Rightarrow> string list" where
  \<comment> \<open>\<open>listing\<close> is what \<^verbatim>\<open>os.listdir(src_dir)\<close> returns, for a source directory that exists.\<close>
  "gather_files fs listing src_dir = sort (filter (\<lambda>f. isfile fs (join src_dir f)) listing)"

definition py_int :: "real \<Rightarrow> int" where
  \<comment> \<open>\<^verbatim>\<open>int(x)\<close> truncates towards zero.\<close>
  "py_int x = (if x < 0 then \<lceil>x\<rceil> else \<lfloor>x\<rfloor>)"

definition py_range :: "int \<Rightarrow> int \<Rightarrow> int list" where
  "py_range a b = [a..b - 1]"

definition split_indices :: "int \<Rightarrow> real \<Rightarrow> real \<Rightarrow> int list \<times> int list \<times> int list" where
  "split_indices n train_r val_r =
     (let n_train = py_int (of_int n * train_r);
          n_val = py_int (of_int n * val_r);
          n_test = n - n_train - n_val
      in (py_range 0 n_train,
          py_range n_train (n_train + n_val),
          py_range (n_train + n_val) n))"

text \<open>
  \<^verbatim>\<open>files[i]\<close>: a negative index counts from the end, an index out of range raises
  \<^verbatim>\<open>IndexError\<close>. A list comprehension stops at the first exception.
\<close>

definition py_index :: "'a list \<Rightarrow> int \<Rightarrow> split_error + 'a" where
  "py_index xs i =
     (if 0 \<le> i \<and> i < int (length xs) then Inr (xs ! nat i)
      else if - int (length xs) \<le> i \<and> i < 0 then Inr (xs ! nat (int (length xs) + i))
      else Inl Index_Error)"

fun select :: "'a list \<Rightarrow> int list \<Rightarrow> split_error + 'a list" where
  "select xs [] = Inr []"
| "select xs (i # is) =
     (case py_index xs i of
        Inl e \<Rightarrow> Inl e
      | Inr x \<Rightarrow> (case select xs is of Inl e \<Rightarrow> Inl e | Inr ys \<Rightarrow> Inr (x # ys)))"

text \<open>
  The module \<^verbatim>\<open>random\<close> is a parameter: \<^verbatim>\<open>random.seed(a)\<close> replaces the state of the global
  generator by one computed from \<open>a\<close> alone, and \<^verbatim>\<open>_randbelow(n)\<close> draws from the state.
  \<^verbatim>\<open>random.shuffle\<close> is the loop of the standard library:
  \<^verbatim>\<open>for i in reversed(range(1, len(x))): j = randbelow(i + 1); x[i], x[j] = x[j], x[i]\<close>.
\<close>

record 'g random_api =
  random_seed :: "int \<Rightarrow> 'g"
  randbelow :: "'g \<Rightarrow> nat \<Rightarrow> nat \<times> 'g"

fun shuffle_loop :: "'g random_api \<Rightarrow> nat \<Rightarrow> 'g \<Rightarrow> 'a list \<Rightarrow> 'a list \<times> 'g" where
  "shuffle_loop rnd 0 g x = (x, g)"
| "shuffle_loop rnd (Suc k) g x =
     (let i = Suc k;
          (j, g') = randbelow rnd g (i + 1)
      in shuffle_loop rnd k g' (x[i := x ! j, j := x ! i]))"

definition shuffle :: "'g random_api \<Rightarrow> 'g \<Rightarrow> 'a list \<Rightarrow> 'a list \<times> 'g" where
  "shuffle rnd g x = shuffle_loop rnd (length x - 1) g x"

definition partition_files ::
  "'g random_api \<Rightarrow> 'g \<Rightarrow> int \<Rightarrow> string list \<Rightarrow> real \<Rightarrow> real
     \<Rightarrow> split_error + string list \<times> string list \<times> string list" where
  \<comment> \<open>Lines 117 to 130 of \<^verbatim>\<open>main\<close>; \<open>g0\<close> is the state of the global generator before them.\<close>
  "partition_files rnd g0 seed_arg files train_ratio val_ratio =
     (let g1 = random_seed rnd seed_arg;
          (files', g2) = shuffle rnd g1 files;
          (train_idx, val_idx, test_idx) =
             split_indices (int (length files')) train_ratio val_ratio
      in case select files' train_idx of
           Inl e \<Rightarrow> Inl e
         | Inr train \<Rightarrow>
             (case select files' val_idx of
                Inl e \<Rightarrow> Inl e
              | Inr val \<Rightarrow>
                  (case select files' test_idx of
                     Inl e \<Rightarrow> Inl e
                   | Inr test \<Rightarrow> Inr (train, val, test))))"

text \<open>
  \<^verbatim>\<open>os.makedirs\<close>, \<^verbatim>\<open>shutil.move\<close> and \<^verbatim>\<open>shutil.copy2\<close> are parameters: each gives the new file
  system, or \<open>None\<close> when it raises. A run records every call it makes to the operating
  system, in order.
\<close>

record shutil_api =
  makedirs :: "path \<Rightarrow> filesystem \<Rightarrow> filesystem option"
  shutil_move :: "path \<Rightarrow> path \<Rightarrow> filesystem \<Rightarrow> filesystem option"
  shutil_copy2 :: "path \<Rightarrow> path \<Rightarrow> filesystem \<Rightarrow> filesystem option"

datatype os_call = Listdir path | Makedirs path | Move path path | Copy2 path path

record split_args =
  src_dir :: path
  dest_dir :: path
  train_ratio :: real
  val_ratio :: real
  test_ratio :: real
  seed :: int
  move :: bool
  preview :: bool

datatype split_status =
    Exit_Error split_error
  | Exit_Preview nat nat nat          \<comment> \<open>the three counts, then \<^verbatim>\<open>sys.exit(0)\<close>\<close>
  | Finished nat nat nat              \<comment> \<open>moved, copied, errs\<close>

record split_run =
  status :: split_status
  calls :: "os_call list"
  fs_end :: filesystem

record place_state =
  pl_fs :: filesystem
  pl_calls :: "os_call list"
  moved :: nat
  copied :: nat
  errs :: nat

fun make_dirs ::
  "shutil_api \<Rightarrow> path \<Rightarrow> string list \<Rightarrow> place_state \<Rightarrow> split_error option \<times> place_state" where
  "make_dirs sh root_dir [] st = (None, st)"
| "make_dirs sh root_dir (name # names) st =
     (let p = join root_dir name;
          st' = st\<lparr>pl_calls := pl_calls st @ [Makedirs p]\<rparr>
      in case makedirs sh p (pl_fs st) of
           None \<Rightarrow> (Some (Makedirs_Error p), st')
         | Some fs' \<Rightarrow> make_dirs sh root_dir names (st'\<lparr>pl_fs := fs'\<rparr>))"

definition dispatch_file ::
  "shutil_api \<Rightarrow> path \<Rightarrow> path \<Rightarrow> bool \<Rightarrow> filesystem \<Rightarrow> filesystem option" where
  "dispatch_file sh src dst move_mode fs =
     (if move_mode then shutil_move sh src dst fs else shutil_copy2 sh src dst fs)"

fun place_subset ::
  "shutil_api \<Rightarrow> split_args \<Rightarrow> string \<Rightarrow> string list \<Rightarrow> place_state \<Rightarrow> place_state" where
  "place_subset sh args subset_name [] st = st"
| "place_subset sh args subset_name (filename # rest) st =
     (let src_path = join (src_dir args) filename;
          dst_path = join (join (dest_dir args) subset_name) filename;
          st' = st\<lparr>pl_calls := pl_calls st @
                   [if move args then Move src_path dst_path else Copy2 src_path dst_path]\<rparr>
      in place_subset sh args subset_name rest
           (case dispatch_file sh src_path dst_path (move args) (pl_fs st) of
              Some fs' \<Rightarrow>
                if move args then st'\<lparr>pl_fs := fs', moved := moved st + 1\<rparr>
                else st'\<lparr>pl_fs := fs', copied := copied st + 1\<rparr>
            | None \<Rightarrow> st'\<lparr>errs := errs st + 1\<rparr>))"

definition main_split ::
  "'g random_api \<Rightarrow> shutil_api \<Rightarrow> split_args \<Rightarrow> string list \<Rightarrow> 'g \<Rightarrow> filesystem \<Rightarrow> split_run" where
  "main_split rnd sh args listing g0 fs =
     (case validate_ratios (train_ratio args) (val_ratio args) (test_ratio args) of
        Inl e \<Rightarrow> \<lparr>status = Exit_Error e, calls = [], fs_end = fs\<rparr>
      | Inr u \<Rightarrow>
          (let files = gather_files fs listing (src_dir args);
               cs = [Listdir (src_dir args)]
           in if files = [] then \<lparr>status = Exit_Error No_Files_Found, calls = cs, fs_end = fs\<rparr>
              else
                (case partition_files rnd g0 (seed args) files (train_ratio args) (val_ratio args) of
                   Inl e \<Rightarrow> \<lparr>status = Exit_Error e, calls = cs, fs_end = fs\<rparr>
                 | Inr (train, val, test) \<Rightarrow>
                     if preview args then
                       \<lparr>status = Exit_Preview (length train) (length val) (length test),
                        calls = cs, fs_end = fs\<rparr>
                     else
                       (case make_dirs sh (dest_dir args) [''train'', ''val'', ''test'']
                               \<lparr>pl_fs = fs, pl_calls = cs, moved = 0, copied = 0, errs = 0\<rparr> of
                          (Some e, st0) \<Rightarrow>
                            \<lparr>status = Exit_Error e, calls = pl_calls st0, fs_end = pl_fs st0\<rparr>
                        | (None, st0) \<Rightarrow>
                            (let st1 = place_subset sh args ''train'' train st0;
                                 st2 = place_subset sh args ''val'' val st1;
                                 st3 = place_subset sh args ''test'' test st2
                             in \<lparr>status = Finished (moved st3) (copied st3) (errs st3),
                                 calls = pl_calls st3, fs_end = pl_fs st3\<rparr>)))))"

section \<open>batch\_rename\_images.py: resolve\_collision\<close>

definition path_exists :: "filesystem \<Rightarrow> path \<Rightarrow> bool" where
  "path_exists fs p = (fs p \<noteq> None)"

definition candidate :: "string \<Rightarrow> string \<Rightarrow> nat \<Rightarrow> path" where
  \<comment> \<open>\<^verbatim>\<open>f"{base}_{idx}{ext}"\<close>\<close>
  "candidate base ext idx = base @ ''_'' @ str_nat idx @ ext"

partial_function (option) resolve_loop :: "filesystem \<Rightarrow> string \<Rightarrow> string \<Rightarrow> nat \<Rightarrow> path option" where
  "resolve_loop fs base ext idx =
     (let new_path = candidate base ext idx
      in if \<not> path_exists fs new_path then Some new_path
         else resolve_loop fs base ext (idx + 1))"

definition resolve_collision :: "filesystem \<Rightarrow> path \<Rightarrow> path option" where
  "resolve_collision fs target_path =
     (case splitext target_path of (base, ext) \<Rightarrow> resolve_loop fs base ext 1)"

section \<open>Reference functions and example instances\<close>

text \<open>
  \<open>dup_pairs H seen ps\<close> lists, for every path of \<open>ps\<close> whose key under \<open>H\<close> was seen before, the
  path with the first path that had this key.
\<close>

fun dup_pairs :: "(path \<Rightarrow> 'k) \<Rightarrow> path list \<Rightarrow> path list \<Rightarrow> (path \<times> path) list" where
  "dup_pairs H seen [] = []"
| "dup_pairs H seen (p # ps) =
     (case List.find (\<lambda>q. H q = H p) seen of Some q \<Rightarrow> [(p, q)] | None \<Rightarrow> []) @
     dup_pairs H (seen @ [p]) ps"

text \<open>
  Instances of the parameters, for evaluating the programs on concrete inputs: a hasher
  whose digest is the content itself, a decoder that accepts the contents that start with
  \<open>OK\<close>, a generator that counts, and a directory \<open>d\<close>.
\<close>

definition content_hashlib :: "string hashlib" where
  "content_hashlib = \<lparr>sha_new = [], sha_update = (\<lambda>h b. h @ b), sha_hexdigest = (\<lambda>h. h)\<rparr>"

definition starts_ok :: "bytes \<Rightarrow> bool" where
  "starts_ok data = (take 2 data = ''OK'')"

definition plain_file :: "bytes \<Rightarrow> node" where
  "plain_file data = Regular \<lparr>content = data, readable = True, removable = True\<rparr>"

definition locked_file :: "bytes \<Rightarrow> node" where
  "locked_file data = Regular \<lparr>content = data, readable = False, removable = True\<rparr>"

definition example_fs :: filesystem where
  "example_fs = map_of
     [(''d'', Directory),
      (''d/b.jpg'', plain_file ''OKx''),
      (''d/a.jpg'', plain_file ''OKx''),
      (''d/c.PNG'', plain_file ''bad''),
      (''d/n.txt'', plain_file ''bad''),
      (''d/z.JPEG'', plain_file ''bad'')]"

definition example_files :: "path list" where
  "example_files = [''d/a.jpg'', ''d/b.jpg'', ''d/c.PNG'', ''d/n.txt'', ''d/z.JPEG'']"

definition example_dups :: "(path \<times> path) list" where
  "example_dups =
     [(''d/b.jpg'', ''d/a.jpg''), (''d/n.txt'', ''d/c.PNG''), (''d/z.JPEG'', ''d/c.PNG'')]"

definition zero_fs :: filesystem where
  "zero_fs = map_of
     [(''d'', Directory),
      (''d/a.txt'', plain_file ''x''),
      (''d/e1.jpg'', plain_file []),
      (''d/e2.txt'', plain_file []),
      (''d/e3'', plain_file [])]"

definition zero_files :: "path list" where
  "zero_files = [''d/a.txt'', ''d/e1.jpg'', ''d/e2.txt'', ''d/e3'']"

definition locked_fs :: filesystem where
  "locked_fs = map_of
     [(''d'', Directory),
      (''d/a.jpg'', locked_file ''OKx''),
      (''d/b.jpg'', plain_file ''OKy''),
      (''d/c.jpg'', plain_file ''OKy'')]"

definition counting_random :: "nat random_api" where
  "counting_random =
     \<lparr>random_seed = (\<lambda>a. nat \<bar>a\<bar>), randbelow = (\<lambda>g n. ((g + 1) mod n, g + 1))\<rparr>"



definition ten_files :: "string list" where
  "ten_files = [''f0.jpg'', ''f1.jpg'', ''f2.jpg'', ''f3.jpg'', ''f4.jpg'',
                ''f5.jpg'', ''f6.jpg'', ''f7.jpg'', ''f8.jpg'', ''f9.jpg'']"

definition rename_fs :: filesystem where
  "rename_fs = map_of
     [(''img_001.jpg'', plain_file ''a''),
      (''img_001_1.jpg'', plain_file ''b''),
      (''img_001_2.jpg'', plain_file ''c''),
      (''./img_001.jpg'', plain_file ''a''),
      (''./img_001_1.jpg'', plain_file ''b''),
      (''./img_001_2.jpg'', plain_file ''c'')]"

section \<open>Properties of cleanup\_dataset.py\<close>

lemma try_remove_dry [simp]: "try_remove True p st = st"
  by (simp add: try_remove_def)

lemma process_duplicates_dry:
  "st_fs (process_duplicates True dups st) = st_fs st \<and>
   st_removed (process_duplicates True dups st) = st_removed st"
  by (induction dups arbitrary: st) auto

lemma process_corrupts_dry:
  "st_fs (process_corrupts True corr st) = st_fs st \<and>
   st_removed (process_corrupts True corr st) = st_removed st"
  by (induction corr arbitrary: st) auto

lemma find_append:
  "List.find P (xs @ ys) = (case List.find P xs of Some x \<Rightarrow> Some x | None \<Rightarrow> List.find P ys)"
  by (induction xs) auto

lemma find_duplicates_loop_Inr:
  assumes "find_duplicates_loop hl fs hashes acc ps = Inr res"
    and "\<forall>h. hashes h = List.find (\<lambda>q. compute_hash hl fs q = Inr h) seen"
  shows "res = acc @ dup_pairs (compute_hash hl fs) seen ps \<and>
         (\<forall>p \<in> set ps. \<exists>h. compute_hash hl fs p = Inr h)"
  using assms
proof (induction ps arbitrary: hashes acc seen)
  case Nil
  then show ?case by simp
next
  case (Cons p ps)
  from Cons.prems(1) obtain h where h: "compute_hash hl fs p = Inr h"
    by (auto split: sum.splits)
  have find_eq: "List.find (\<lambda>q. compute_hash hl fs q = compute_hash hl fs p) seen = hashes h"
    using Cons.prems(2) h by simp
  show ?case
  proof (cases "hashes h")
    case None
    have inv: "\<forall>k. (hashes(h \<mapsto> p)) k = List.find (\<lambda>q. compute_hash hl fs q = Inr k) (seen @ [p])"
    proof
      fix k
      show "(hashes(h \<mapsto> p)) k = List.find (\<lambda>q. compute_hash hl fs q = Inr k) (seen @ [p])"
        using Cons.prems(2) None h by (auto simp: find_append split: option.splits)
    qed
    from Cons.prems(1) h None
    have "find_duplicates_loop hl fs (hashes(h \<mapsto> p)) acc ps = Inr res" by simp
    from Cons.IH[OF this inv] show ?thesis using h None find_eq by auto
  next
    case (Some orig)
    have inv: "\<forall>k. hashes k = List.find (\<lambda>q. compute_hash hl fs q = Inr k) (seen @ [p])"
    proof
      fix k
      show "hashes k = List.find (\<lambda>q. compute_hash hl fs q = Inr k) (seen @ [p])"
        using Cons.prems(2) Some h by (auto simp: find_append split: option.splits)
    qed
    from Cons.prems(1) h Some
    have "find_duplicates_loop hl fs hashes (acc @ [(p, orig)]) ps = Inr res" by simp
    from Cons.IH[OF this inv] show ?thesis using h Some find_eq by auto
  qed
qed

lemma find_duplicates_loop_total:
  assumes "\<forall>p \<in> set ps. \<exists>h. compute_hash hl fs p = Inr h"
  shows "\<exists>res. find_duplicates_loop hl fs hashes acc ps = Inr res"
  using assms
  by (induction ps arbitrary: hashes acc) (auto split: sum.splits option.splits)

lemma find_duplicates_loop_abort:
  assumes "p \<in> set ps" "compute_hash hl fs p = Inl e"
  shows "\<exists>e'. find_duplicates_loop hl fs hashes acc ps = Inl e'"
  using assms
  by (induction ps arbitrary: hashes acc) (auto split: sum.splits option.splits)

lemma set_dup_pairs:
  "(d, orig) \<in> set (dup_pairs H seen ps) \<longleftrightarrow>
     (\<exists>us vs. ps = us @ d # vs \<and> List.find (\<lambda>q. H q = H d) (seen @ us) = Some orig)"
proof (induction ps arbitrary: seen)
  case Nil
  then show ?case by simp
next
  case (Cons p ps)
  note IH = Cons.IH
  show ?case (is "?L \<longleftrightarrow> ?R")
  proof
    assume ?L
    then consider "d = p" "List.find (\<lambda>q. H q = H p) seen = Some orig"
      | "(d, orig) \<in> set (dup_pairs H (seen @ [p]) ps)"
      by (auto split: option.splits)
    then show ?R
    proof cases
      case 1
      then have "p # ps = [] @ d # ps \<and> List.find (\<lambda>q. H q = H d) (seen @ []) = Some orig"
        by simp
      then show ?thesis by blast
    next
      case 2
      then obtain us vs where "ps = us @ d # vs"
        "List.find (\<lambda>q. H q = H d) ((seen @ [p]) @ us) = Some orig"
        using IH by blast
      then have "p # ps = (p # us) @ d # vs \<and> List.find (\<lambda>q. H q = H d) (seen @ (p # us)) = Some orig"
        by simp
      then show ?thesis by blast
    qed
  next
    assume ?R
    then obtain us vs where uv: "p # ps = us @ d # vs"
      "List.find (\<lambda>q. H q = H d) (seen @ us) = Some orig" by blast
    show ?L
    proof (cases us)
      case Nil
      with uv show ?thesis by auto
    next
      case (Cons u us')
      with uv have "ps = us' @ d # vs" "List.find (\<lambda>q. H q = H d) ((seen @ [p]) @ us') = Some orig"
        by auto
      then have "(d, orig) \<in> set (dup_pairs H (seen @ [p]) ps)"
        using IH by blast
      then show ?thesis by simp
    qed
  qed
qed

lemma find_duplicates_pairs:
  assumes "find_duplicates hl fs files = Inr dups"
  shows "dups = dup_pairs (compute_hash hl fs) [] files"
    and "\<forall>p \<in> set files. \<exists>h. compute_hash hl fs p = Inr h"
  using find_duplicates_loop_Inr[of hl fs Map.empty "[]" files dups "[]"] assms
  by (simp_all add: find_duplicates_def)

lemma dup_pairs_sorted:
  assumes srt: "sorted files" and dst: "distinct files"
  shows "(d, orig) \<in> set (dup_pairs H [] files) \<longleftrightarrow>
           d \<in> set files \<and> orig \<in> set files \<and> orig < d \<and> H orig = H d \<and>
           (\<forall>q \<in> set files. H q = H d \<longrightarrow> orig \<le> q)"
    (is "?L \<longleftrightarrow> ?R")
proof
  assume ?L
  then obtain us vs where uv: "files = us @ d # vs"
    and fnd: "List.find (\<lambda>q. H q = H d) us = Some orig"
    using set_dup_pairs[of d orig H "[]" files] by auto
  from fnd obtain i where i: "i < length us" "H (us ! i) = H d" "orig = us ! i"
    "\<forall>j<i. H (us ! j) \<noteq> H d"
    by (auto simp: find_Some_iff)
  from srt uv have s_us: "sorted us" and cross: "\<forall>x\<in>set us. \<forall>y\<in>set (d # vs). x \<le> y"
    by (auto simp: sorted_append)
  from dst uv have d_us: "d \<notin> set us" by auto
  have o_us: "orig \<in> set us" using i by simp
  have "orig \<le> d" using cross o_us by simp
  moreover have "orig \<noteq> d" using d_us o_us by auto
  ultimately have lt: "orig < d" by simp
  have least: "orig \<le> q" if q: "q \<in> set files" "H q = H d" for q
  proof (cases "q \<in> set us")
    case True
    then obtain k where k: "k < length us" "us ! k = q" by (auto simp: in_set_conv_nth)
    have "\<not> k < i" using i(4) k q(2) by auto
    then have "i \<le> k" by simp
    then show ?thesis using sorted_nth_mono[OF s_us, of i k] k i(3) by simp
  next
    case False
    with q uv have "q \<in> set (d # vs)" by auto
    then show ?thesis using cross o_us by blast
  qed
  show ?R using uv o_us lt i least by auto
next
  assume R: ?R
  then obtain us vs where uv: "files = us @ d # vs" by (meson split_list)
  from srt uv have s_us: "sorted us" and cross: "\<forall>x\<in>set us. \<forall>y\<in>set (d # vs). x \<le> y"
    by (auto simp: sorted_append)
  have "orig \<notin> set (d # vs)"
  proof
    assume "orig \<in> set (d # vs)"
    then have "d \<le> orig" using srt uv by (auto simp: sorted_append)
    with R show False by (auto dest: leD)
  qed
  with R uv have o_us: "orig \<in> set us" by auto
  then have "List.find (\<lambda>q. H q = H d) us \<noteq> None"
    using R by (auto simp: find_None_iff)
  then obtain o' where fnd: "List.find (\<lambda>q. H q = H d) us = Some o'" by auto
  then obtain i where i: "i < length us" "H (us ! i) = H d" "o' = us ! i"
    "\<forall>j<i. H (us ! j) \<noteq> H d"
    by (auto simp: find_Some_iff)
  have "o' \<in> set files" using i uv by simp
  then have le1: "orig \<le> o'" using R i by auto
  from o_us obtain k where k: "k < length us" "us ! k = orig" by (auto simp: in_set_conv_nth)
  have "\<not> k < i" using i(4) k R by auto
  then have "i \<le> k" by simp
  then have "o' \<le> orig" using sorted_nth_mono[OF s_us, of i k] k i(3) by simp
  with le1 have "o' = orig" by simp
  with fnd uv show ?L using set_dup_pairs[of d orig H "[]" files] by auto
qed

lemma try_remove_frame: "p \<noteq> q \<Longrightarrow> st_fs (try_remove dry_run q st) p = st_fs st p"
  by (auto simp: try_remove_def os_remove_def split: option.splits node.splits sum.splits)

lemma try_remove_removed:
  "set (st_removed (try_remove dry_run q st)) \<subseteq> insert q (set (st_removed st))"
  by (auto simp: try_remove_def os_remove_def split: option.splits node.splits sum.splits)

lemma process_duplicates_frame:
  "p \<notin> fst ` set dups \<Longrightarrow> st_fs (process_duplicates dry_run dups st) p = st_fs st p"
  by (induction dups arbitrary: st) (auto simp: try_remove_frame)

lemma process_duplicates_removed:
  "set (st_removed (process_duplicates dry_run dups st)) \<subseteq> set (st_removed st) \<union> fst ` set dups"
proof (induction dups arbitrary: st)
  case Nil
  then show ?case by simp
next
  case (Cons a dups)
  obtain d orig where a: "a = (d, orig)" by (cases a)
  let ?st' = "try_remove dry_run d (st\<lparr>st_printed := st_printed st @ [Dup_Remove d orig]\<rparr>)"
  have "set (st_removed ?st') \<subseteq> insert d (set (st_removed st))"
    using try_remove_removed[of dry_run d "st\<lparr>st_printed := st_printed st @ [Dup_Remove d orig]\<rparr>"]
    by simp
  with Cons.IH[of ?st'] show ?case unfolding a by auto
qed

lemma gather_all_files_sorted: "sorted (gather_all_files fs listing root_dir)"
  by (simp add: gather_all_files_def)

lemma join_inject:
  assumes "CHR ''/'' \<notin> set a" "CHR ''/'' \<notin> set b" "join r a = join r b"
  shows "a = b"
proof -
  have "\<not> (a \<noteq> [] \<and> hd a = CHR ''/'')" "\<not> (b \<noteq> [] \<and> hd b = CHR ''/'')"
    using assms(1,2) by (auto dest: hd_in_set)
  then show ?thesis using assms(3) by (auto simp: join_def split: if_splits)
qed

lemma gather_all_files_distinct:
  assumes "distinct listing" "\<forall>f \<in> set listing. CHR ''/'' \<notin> set f"
  shows "distinct (gather_all_files fs listing root_dir)"
proof -
  have "inj_on (join root_dir) (set listing)"
    using assms(2) by (auto simp: inj_on_def dest: join_inject)
  then have "distinct (map (join root_dir) listing)"
    using assms(1) by (simp add: distinct_map)
  then show ?thesis by (simp add: gather_all_files_def)
qed

lemmas string_order_simps =
  less_eq_list_code less_list_code less_char_def less_eq_char_def

lemmas cleanup_eval_simps =
  main_cleanup_def scan_def gather_all_files_def join_def isfile_def isdir_def
  find_duplicates_def compute_hash_def open_rb_def os_remove_def try_remove_def
  is_corrupt_image_def IMAGE_EXTENSIONS_def splitext_def rfind_def lower_def lower_char_def
  read_blocks.simps content_hashlib_def starts_ok_def plain_file_def locked_file_def
  string_order_simps

text \<open>
  C4. The duplicate pairs and the corrupt paths that a dry run reports are those of a live
  run on the same file system, a dry run fails exactly when the live run does, and a dry
  run leaves the file system as it was and removes nothing.
\<close>

theorem dry_run_equivalence:
  "map_sum id (\<lambda>r. (duplicates r, corrupts r))
     (main_cleanup hl verify_ok fs listing root_dir True) =
   map_sum id (\<lambda>r. (duplicates r, corrupts r))
     (main_cleanup hl verify_ok fs listing root_dir False)
   \<and> (\<forall>r. main_cleanup hl verify_ok fs listing root_dir True = Inr r \<longrightarrow>
          final_fs r = fs \<and> removed r = [])"
  by (auto simp: main_cleanup_def Let_def process_duplicates_dry process_corrupts_dry
           split: sum.splits prod.splits)

lemma example_dry_run:
  "main_cleanup content_hashlib starts_ok example_fs
     [''n.txt'', ''z.JPEG'', ''c.PNG'', ''b.jpg'', ''a.jpg''] ''d'' True =
   Inr \<lparr>duplicates = [(''d/b.jpg'', ''d/a.jpg''), (''d/n.txt'', ''d/c.PNG''),
                      (''d/z.JPEG'', ''d/c.PNG'')],
        corrupts = [''d/c.PNG'', ''d/z.JPEG''], final_fs = example_fs, removed = [],
        printed = [Summary_Duplicates 3, Summary_Corrupts 2, Dry_Run_Notice,
                   Dup_Remove ''d/b.jpg'' ''d/a.jpg'', Dup_Remove ''d/n.txt'' ''d/c.PNG'',
                   Dup_Remove ''d/z.JPEG'' ''d/c.PNG'',
                   Corrupt_Remove ''d/c.PNG'', Corrupt_Remove ''d/z.JPEG'']\<rparr>"
  by (simp add: cleanup_eval_simps example_fs_def)

lemma example_live_run:
  "map_sum id (\<lambda>r. (removed r, printed r))
     (main_cleanup content_hashlib starts_ok example_fs
        [''n.txt'', ''z.JPEG'', ''c.PNG'', ''b.jpg'', ''a.jpg''] ''d'' False) =
   Inr ([''d/b.jpg'', ''d/n.txt'', ''d/z.JPEG'', ''d/c.PNG''],
        [Summary_Duplicates 3, Summary_Corrupts 2,
         Dup_Remove ''d/b.jpg'' ''d/a.jpg'', Dup_Remove ''d/n.txt'' ''d/c.PNG'',
         Dup_Remove ''d/z.JPEG'' ''d/c.PNG'',
         Corrupt_Remove ''d/c.PNG'', Corrupt_Remove ''d/z.JPEG'', Delete_Failed ''d/z.JPEG'',
         Cleanup_Complete])"
  by (simp add: cleanup_eval_simps example_fs_def)

theorem dry_run_equivalence_witness:
  "\<exists>r. main_cleanup content_hashlib starts_ok example_fs
          [''n.txt'', ''z.JPEG'', ''c.PNG'', ''b.jpg'', ''a.jpg''] ''d'' True = Inr r
       \<and> final_fs r = example_fs \<and> removed r = []
       \<and> map_sum id (\<lambda>r. (duplicates r, corrupts r))
            (main_cleanup content_hashlib starts_ok example_fs
               [''n.txt'', ''z.JPEG'', ''c.PNG'', ''b.jpg'', ''a.jpg''] ''d'' False) =
          Inr ([(''d/b.jpg'', ''d/a.jpg''), (''d/n.txt'', ''d/c.PNG''),
                (''d/z.JPEG'', ''d/c.PNG'')], [''d/c.PNG'', ''d/z.JPEG''])"
  using dry_run_equivalence [of content_hashlib starts_ok example_fs
      "[''n.txt'', ''z.JPEG'', ''c.PNG'', ''b.jpg'', ''a.jpg'']" "''d''"]
  by (simp add: example_dry_run)

text \<open>
  C2. The claim is that a file that cannot be hashed is reported and the scan goes on.
  In the directory \<open>d\<close> of \<open>locked_fs\<close> the file \<open>a.jpg\<close> cannot be read and \<open>b.jpg\<close>, \<open>c.jpg\<close> are
  equal: the \<^verbatim>\<open>OSError\<close> of \<open>a.jpg\<close> leaves \<^verbatim>\<open>find_duplicates\<close> and \<^verbatim>\<open>main\<close>, and the pair of
  \<open>c.jpg\<close> and \<open>b.jpg\<close>, which the scan of the two alone reports, is never found.
\<close>

theorem unreadable_file_aborts_scan:
  "find_duplicates content_hashlib locked_fs [''d/a.jpg'', ''d/b.jpg'', ''d/c.jpg''] =
     Inl (OS_Error ''d/a.jpg'')
   \<and> main_cleanup content_hashlib starts_ok locked_fs [''a.jpg'', ''b.jpg'', ''c.jpg''] ''d'' False =
     Inl (OS_Error ''d/a.jpg'')
   \<and> main_cleanup content_hashlib starts_ok locked_fs [''a.jpg'', ''b.jpg'', ''c.jpg''] ''d'' True =
     Inl (OS_Error ''d/a.jpg'')
   \<and> find_duplicates content_hashlib locked_fs [''d/b.jpg'', ''d/c.jpg''] =
     Inr [(''d/c.jpg'', ''d/b.jpg'')]"
  by (simp add: cleanup_eval_simps locked_fs_def)

text \<open>
  C6. On a sorted listing without repetition whose files can all be hashed, the reported
  pairs are exactly the pairs of a file and the least path of the listing with the same
  fingerprint, the file being another, so a later one. The loop over the pairs, dry or
  live, leaves the canonical path of every pair as it was, and removes nothing but first
  members of pairs. The listing that \<^verbatim>\<open>main\<close> scans is sorted (\<open>gather_all_files_sorted\<close>), and
  has no repetition when the names of the directory have none
  (\<open>gather_all_files_distinct\<close>).
\<close>

theorem first_occurrence_is_canonical:
  assumes "sorted files" and "distinct files" and "find_duplicates hl fs files = Inr dups"
  shows "set dups =
           {(d, orig). d \<in> set files \<and> orig \<in> set files \<and> orig < d \<and>
              compute_hash hl fs orig = compute_hash hl fs d \<and>
              (\<forall>q \<in> set files. compute_hash hl fs q = compute_hash hl fs d \<longrightarrow> orig \<le> q)}
         \<and> (\<forall>(d, orig) \<in> set dups.
               st_fs (process_duplicates dry_run dups st) orig = st_fs st orig)
         \<and> set (st_removed (process_duplicates dry_run dups st))
               \<subseteq> set (st_removed st) \<union> fst ` set dups"
proof -
  have eq: "dups = dup_pairs (compute_hash hl fs) [] files"
    using find_duplicates_pairs(1)[OF assms(3)] .
  have char: "(d, orig) \<in> set dups \<longleftrightarrow>
           d \<in> set files \<and> orig \<in> set files \<and> orig < d \<and>
           compute_hash hl fs orig = compute_hash hl fs d \<and>
           (\<forall>q \<in> set files. compute_hash hl fs q = compute_hash hl fs d \<longrightarrow> orig \<le> q)"
    for d orig
    unfolding eq by (rule dup_pairs_sorted[OF assms(1,2)])
  have canon: "orig \<notin> fst ` set dups" if "(d, orig) \<in> set dups" for d orig
  proof
    assume "orig \<in> fst ` set dups"
    then obtain o2 where "(orig, o2) \<in> set dups" by auto
    then have "o2 \<in> set files" "o2 < orig" "compute_hash hl fs o2 = compute_hash hl fs orig"
      using char by auto
    moreover have "compute_hash hl fs orig = compute_hash hl fs d"
      "\<forall>q \<in> set files. compute_hash hl fs q = compute_hash hl fs d \<longrightarrow> orig \<le> q"
      using that char by auto
    ultimately show False by auto
  qed
  have 1: "set dups =
           {(d, orig). d \<in> set files \<and> orig \<in> set files \<and> orig < d \<and>
              compute_hash hl fs orig = compute_hash hl fs d \<and>
              (\<forall>q \<in> set files. compute_hash hl fs q = compute_hash hl fs d \<longrightarrow> orig \<le> q)}"
    using char by auto
  have 2: "\<forall>(d, orig) \<in> set dups.
               st_fs (process_duplicates dry_run dups st) orig = st_fs st orig"
    using canon process_duplicates_frame by fastforce
  show ?thesis using 1 2 process_duplicates_removed by blast
qed

lemma example_find_duplicates:
  "find_duplicates content_hashlib example_fs example_files = Inr example_dups"
  by (simp add: cleanup_eval_simps example_fs_def example_files_def example_dups_def)

theorem first_occurrence_is_canonical_witness:
  "sorted example_files \<and> distinct example_files
   \<and> find_duplicates content_hashlib example_fs example_files = Inr example_dups
   \<and> st_fs (process_duplicates False example_dups
              \<lparr>st_fs = example_fs, st_removed = [], st_printed = []\<rparr>) ''d/a.jpg'' =
        example_fs ''d/a.jpg''
   \<and> st_fs (process_duplicates False example_dups
              \<lparr>st_fs = example_fs, st_removed = [], st_printed = []\<rparr>) ''d/c.PNG'' =
        example_fs ''d/c.PNG''
   \<and> set (st_removed (process_duplicates False example_dups
                  \<lparr>st_fs = example_fs, st_removed = [], st_printed = []\<rparr>))
         \<subseteq> fst ` set example_dups"
proof -
  have h1: "sorted example_files"
    by (simp add: example_files_def string_order_simps)
  have h2: "distinct example_files"
    by (simp add: example_files_def)
  note t = first_occurrence_is_canonical [OF h1 h2 example_find_duplicates, of False
      "\<lparr>st_fs = example_fs, st_removed = [], st_printed = []\<rparr>"]
  have c2: "\<forall>(d, orig) \<in> set example_dups.
         st_fs (process_duplicates False example_dups
                  \<lparr>st_fs = example_fs, st_removed = [], st_printed = []\<rparr>) orig = example_fs orig"
    using t [THEN conjunct2, THEN conjunct1] by simp
  have m: "(''d/b.jpg'', ''d/a.jpg'') \<in> set example_dups"
    "(''d/n.txt'', ''d/c.PNG'') \<in> set example_dups"
    by (simp_all add: example_dups_def)
  have c2a: "st_fs (process_duplicates False example_dups
              \<lparr>st_fs = example_fs, st_removed = [], st_printed = []\<rparr>) ''d/a.jpg'' =
        example_fs ''d/a.jpg''"
    using c2 m(1) by blast
  have c2c: "st_fs (process_duplicates False example_dups
              \<lparr>st_fs = example_fs, st_removed = [], st_printed = []\<rparr>) ''d/c.PNG'' =
        example_fs ''d/c.PNG''"
    using c2 m(2) by blast
  have c3: "set (st_removed (process_duplicates False example_dups
                  \<lparr>st_fs = example_fs, st_removed = [], st_printed = []\<rparr>))
         \<subseteq> fst ` set example_dups"
    using t [THEN conjunct2, THEN conjunct2] by simp
  show ?thesis
    by (intro conjI h1 h2 example_find_duplicates c2a c2c c3)
qed

lemma dup_pairs_earlier:
  assumes "i < length files" "j < i" "H (files ! j) = H (files ! i)"
  shows "files ! i \<in> fst ` set (dup_pairs H [] files)"
proof -
  let ?us = "take i files"
  have split: "files = ?us @ files ! i # drop (Suc i) files"
    using assms(1) by (simp add: id_take_nth_drop)
  have "files ! j \<in> set ?us"
    using assms(1,2) by (metis in_set_conv_nth length_take min.absorb2 nth_take less_imp_le_nat)
  then have "List.find (\<lambda>q. H q = H (files ! i)) ?us \<noteq> None"
    using assms(3) by (auto simp: find_None_iff)
  then obtain orig where "List.find (\<lambda>q. H q = H (files ! i)) ([] @ ?us) = Some orig" by auto
  then have "(files ! i, orig) \<in> set (dup_pairs H [] files)"
    using split set_dup_pairs[of "files ! i" orig H "[]" files] by blast
  then show ?thesis by force
qed

text \<open>
  C7. When the scan returns, its pairs are those of \<^verbatim>\<open>find_duplicates\<close> on the whole listing:
  every file that has the fingerprint of an earlier file is reported as a duplicate, with
  no condition on its name. Its corrupt paths are the files of the listing whose extension,
  in lower case, is in the table and that the decoder rejects. The pairs do not depend on
  the decoder. In the example directory \<open>n.txt\<close> is reported as a duplicate, \<open>c.PNG\<close> as
  corrupt, and \<open>z.JPEG\<close> as both.
\<close>

theorem scan_passes_independent:
  "(scan hl verify_ok fs files = Inr (dups, corr) \<longrightarrow>
      find_duplicates hl fs files = Inr dups
      \<and> (\<forall>i < length files. \<forall>j < i.
            compute_hash hl fs (files ! j) = compute_hash hl fs (files ! i)
            \<longrightarrow> files ! i \<in> fst ` set dups)
      \<and> corr = filter (\<lambda>p. lower (snd (splitext p)) \<in> set IMAGE_EXTENSIONS
                            \<and> is_corrupt_image verify_ok fs p) files
      \<and> (\<forall>verify_ok' dups' corr'.
            scan hl verify_ok' fs files = Inr (dups', corr') \<longrightarrow> dups' = dups))
   \<and> scan content_hashlib starts_ok example_fs example_files =
       Inr ([(''d/b.jpg'', ''d/a.jpg''), (''d/n.txt'', ''d/c.PNG''), (''d/z.JPEG'', ''d/c.PNG'')],
            [''d/c.PNG'', ''d/z.JPEG''])"
proof (intro conjI impI)
  assume sc: "scan hl verify_ok fs files = Inr (dups, corr)"
  then show fd: "find_duplicates hl fs files = Inr dups"
    by (auto simp: scan_def split: sum.splits)
  show "corr = filter (\<lambda>p. lower (snd (splitext p)) \<in> set IMAGE_EXTENSIONS
                            \<and> is_corrupt_image verify_ok fs p) files"
    using sc by (auto simp: scan_def split: sum.splits)
  show "\<forall>verify_ok' dups' corr'.
            scan hl verify_ok' fs files = Inr (dups', corr') \<longrightarrow> dups' = dups"
    using fd by (auto simp: scan_def split: sum.splits)
  have "dups = dup_pairs (compute_hash hl fs) [] files"
    using find_duplicates_pairs(1)[OF fd] .
  then show "\<forall>i < length files. \<forall>j < i.
            compute_hash hl fs (files ! j) = compute_hash hl fs (files ! i)
            \<longrightarrow> files ! i \<in> fst ` set dups"
    using dup_pairs_earlier[of _ files _ "compute_hash hl fs"] by blast
next
  show "scan content_hashlib starts_ok example_fs example_files =
       Inr ([(''d/b.jpg'', ''d/a.jpg''), (''d/n.txt'', ''d/c.PNG''), (''d/z.JPEG'', ''d/c.PNG'')],
            [''d/c.PNG'', ''d/z.JPEG''])"
    by (simp add: cleanup_eval_simps example_fs_def example_files_def)
qed

theorem scan_passes_independent_witness:
  "scan content_hashlib starts_ok example_fs example_files =
     Inr (example_dups, [''d/c.PNG'', ''d/z.JPEG''])
   \<and> find_duplicates content_hashlib example_fs example_files = Inr example_dups
   \<and> ''d/z.JPEG'' \<in> fst ` set example_dups
   \<and> ''d/n.txt'' \<in> fst ` set example_dups"
proof -
  note t = scan_passes_independent [of content_hashlib starts_ok example_fs example_files
      example_dups "[''d/c.PNG'', ''d/z.JPEG'']"]
  have sc: "scan content_hashlib starts_ok example_fs example_files =
     Inr (example_dups, [''d/c.PNG'', ''d/z.JPEG''])"
    using t [THEN conjunct2] by (simp add: example_dups_def)
  have fd: "find_duplicates content_hashlib example_fs example_files = Inr example_dups"
    using t [THEN conjunct1, THEN mp, OF sc] by (rule conjunct1)
  show ?thesis using sc fd by (simp add: example_dups_def)
qed

lemma read_blocks_empty: "read_blocks n [] = []"
  by (simp add: read_blocks.simps)

text \<open>
  C10. Hashing a file of no bytes feeds nothing to the hasher, so its fingerprint is the
  digest of the fresh hasher. On a sorted listing without repetition whose files can all be
  hashed, and in which no file with content has that digest, every zero-byte file other
  than the least one is reported as a duplicate of the least one, whatever the names are.
\<close>

theorem zero_byte_files_are_duplicates:
  assumes "sorted files" and "distinct files" and "find_duplicates hl fs files = Inr dups"
    and "z0 \<in> set files" and "open_rb fs z0 = Inr []"
    and "\<forall>z \<in> set files. open_rb fs z = Inr [] \<longrightarrow> z0 \<le> z"
    and "\<forall>q \<in> set files. compute_hash hl fs q = Inr (sha_hexdigest hl (sha_new hl))
            \<longrightarrow> open_rb fs q = Inr []"
  shows "\<forall>z \<in> set files. open_rb fs z = Inr [] \<longrightarrow>
           compute_hash hl fs z = Inr (sha_hexdigest hl (sha_new hl))
           \<and> (z \<noteq> z0 \<longrightarrow> (z, z0) \<in> set dups)"
proof (intro ballI impI conjI)
  fix z assume z: "z \<in> set files" "open_rb fs z = Inr []"
  have hz: "compute_hash hl fs p = Inr (sha_hexdigest hl (sha_new hl))"
    if "open_rb fs p = Inr []" for p
    using that by (simp add: compute_hash_def read_blocks_empty)
  show "compute_hash hl fs z = Inr (sha_hexdigest hl (sha_new hl))" using hz z by simp
  assume ne: "z \<noteq> z0"
  have eq: "dups = dup_pairs (compute_hash hl fs) [] files"
    using find_duplicates_pairs(1)[OF assms(3)] .
  have "z0 \<le> z" using assms(6) z by simp
  with ne have lt: "z0 < z" by simp
  have least: "\<forall>q \<in> set files. compute_hash hl fs q = compute_hash hl fs z \<longrightarrow> z0 \<le> q"
    using assms(6,7) hz z by auto
  have "compute_hash hl fs z0 = compute_hash hl fs z" using hz assms(5) z by simp
  then show "(z, z0) \<in> set dups"
    unfolding eq dup_pairs_sorted[OF assms(1,2)] using z assms(4) lt least by simp
qed

lemma zero_find_duplicates:
  "find_duplicates content_hashlib zero_fs zero_files =
     Inr [(''d/e2.txt'', ''d/e1.jpg''), (''d/e3'', ''d/e1.jpg'')]"
  by (simp add: cleanup_eval_simps zero_fs_def zero_files_def)

theorem zero_byte_files_are_duplicates_witness:
  "sorted zero_files \<and> distinct zero_files
   \<and> find_duplicates content_hashlib zero_fs zero_files =
        Inr [(''d/e2.txt'', ''d/e1.jpg''), (''d/e3'', ''d/e1.jpg'')]
   \<and> compute_hash content_hashlib zero_fs ''d/e3'' =
        Inr (sha_hexdigest content_hashlib (sha_new content_hashlib))
   \<and> (''d/e3'', ''d/e1.jpg'') \<in> set [(''d/e2.txt'', ''d/e1.jpg''), (''d/e3'', ''d/e1.jpg'')]"
proof -
  have h1: "sorted zero_files"
    by (simp add: zero_files_def string_order_simps)
  have h2: "distinct zero_files"
    by (simp add: zero_files_def)
  have h4: "''d/e1.jpg'' \<in> set zero_files"
    by (simp add: zero_files_def)
  have h5: "open_rb zero_fs ''d/e1.jpg'' = Inr []"
    by (simp add: open_rb_def zero_fs_def plain_file_def)
  have h6: "\<forall>z \<in> set zero_files. open_rb zero_fs z = Inr [] \<longrightarrow> ''d/e1.jpg'' \<le> z"
    by (simp add: zero_files_def open_rb_def zero_fs_def plain_file_def string_order_simps)
  have h7: "\<forall>q \<in> set zero_files.
      compute_hash content_hashlib zero_fs q =
        Inr (sha_hexdigest content_hashlib (sha_new content_hashlib))
      \<longrightarrow> open_rb zero_fs q = Inr []"
    by (simp add: zero_files_def compute_hash_def open_rb_def zero_fs_def plain_file_def
          content_hashlib_def read_blocks.simps)
  note t = zero_byte_files_are_duplicates [OF h1 h2 zero_find_duplicates h4 h5 h6 h7]
  have z: "''d/e3'' \<in> set zero_files" "open_rb zero_fs ''d/e3'' = Inr []"
    "''d/e3'' \<noteq> ''d/e1.jpg''"
    by (simp_all add: zero_files_def open_rb_def zero_fs_def plain_file_def)
  have c: "compute_hash content_hashlib zero_fs ''d/e3'' =
        Inr (sha_hexdigest content_hashlib (sha_new content_hashlib))
     \<and> (''d/e3'', ''d/e1.jpg'') \<in> set [(''d/e2.txt'', ''d/e1.jpg''), (''d/e3'', ''d/e1.jpg'')]"
    using t z by blast
  show ?thesis
    by (intro conjI h1 h2 zero_find_duplicates c [THEN conjunct1] c [THEN conjunct2])
qed

section \<open>Properties of split\_dataset.py\<close>

lemma upto_as_upt: "0 \<le> a \<Longrightarrow> [a..b - 1] = map int [nat a..<nat b]"
proof (induction "nat (b - a)" arbitrary: a)
  case 0
  then show ?case by simp
next
  case (Suc k)
  then have ab: "a < b" by linarith
  have "[a..b - 1] = a # [a + 1..b - 1]"
    using ab by (simp add: upto_rec1)
  moreover have "[a + 1..b - 1] = map int [nat (a + 1)..<nat b]"
    using Suc by (intro Suc.hyps(1)) linarith+
  moreover have "[nat a..<nat b] = nat a # [nat (a + 1)..<nat b]"
  proof -
    have "nat (a + 1) = Suc (nat a)" using Suc.prems by linarith
    moreover have "nat a < nat b" using ab Suc.prems by linarith
    ultimately show ?thesis by (simp add: upt_conv_Cons)
  qed
  ultimately show ?case using Suc.prems by simp
qed

lemma py_range_upt: "0 \<le> a \<Longrightarrow> py_range a b = map int [nat a..<nat b]"
  by (simp add: py_range_def upto_as_upt)

lemma select_upt:
  "n \<le> length xs \<Longrightarrow> select xs (map int [m..<n]) = Inr (take (n - m) (drop m xs))"
proof (induction "n - m" arbitrary: m)
  case 0
  then show ?case by simp
next
  case (Suc k)
  then have mn: "m < n" by linarith
  have step: "[m..<n] = m # [Suc m..<n]" using mn by (simp add: upt_conv_Cons)
  have ih: "select xs (map int [Suc m..<n]) = Inr (take (n - Suc m) (drop (Suc m) xs))"
    using Suc by (intro Suc.hyps(1)) linarith+
  have idx: "py_index xs (int m) = Inr (xs ! m)"
    using mn Suc.prems by (simp add: py_index_def)
  have "take (n - m) (drop m xs) = xs ! m # take (n - Suc m) (drop (Suc m) xs)"
  proof -
    have "m < length xs" using mn Suc.prems by linarith
    then have "drop m xs = xs ! m # drop (Suc m) xs" by (simp add: Cons_nth_drop_Suc)
    moreover have "n - m = Suc (n - Suc m)" using mn by linarith
    ultimately show ?thesis by simp
  qed
  then show ?case using step ih idx by simp
qed

lemma shuffle_loop_mset:
  assumes "\<forall>g n. 0 < n \<longrightarrow> fst (randbelow rnd g n) < n" "k < length x \<or> x = []"
  shows "mset (fst (shuffle_loop rnd k g x)) = mset x"
  using assms
proof (induction k arbitrary: g x)
  case 0
  then show ?case by simp
next
  case (Suc k)
  obtain j g' where jg: "randbelow rnd g (Suc k + 1) = (j, g')" by (cases "randbelow rnd g (Suc k + 1)")
  from Suc.prems(1) have "fst (randbelow rnd g (Suc k + 1)) < Suc k + 1" by simp
  with jg have j: "j < Suc k + 1" by simp
  show ?case
  proof (cases "x = []")
    case True
    then show ?thesis using jg Suc.IH[OF Suc.prems(1), of "[]" g'] by simp
  next
    case False
    with Suc.prems(2) have k: "Suc k < length x" by simp
    have sw: "mset (x[Suc k := x ! j, j := x ! Suc k]) = mset x"
      using k j by (intro mset_swap) simp_all
    have "mset (fst (shuffle_loop rnd k g' (x[Suc k := x ! j, j := x ! Suc k]))) =
          mset (x[Suc k := x ! j, j := x ! Suc k])"
      using k by (intro Suc.IH[OF Suc.prems(1)]) simp
    then show ?thesis using jg sw by simp
  qed
qed

lemma shuffle_mset:
  assumes "\<forall>g n. 0 < n \<longrightarrow> fst (randbelow rnd g n) < n"
  shows "mset (fst (shuffle rnd g x)) = mset x"
  unfolding shuffle_def
  by (rule shuffle_loop_mset[OF assms]) (cases x; simp)

lemma split_slices:
  assumes "0 \<le> nt" "0 \<le> nv" "nt + nv \<le> int (length xs)"
  shows "select xs (py_range 0 nt) = Inr (take (nat nt) xs)"
    and "select xs (py_range nt (nt + nv)) = Inr (take (nat nv) (drop (nat nt) xs))"
    and "select xs (py_range (nt + nv) (int (length xs))) = Inr (drop (nat nt + nat nv) xs)"
proof -
  show "select xs (py_range 0 nt) = Inr (take (nat nt) xs)"
    using assms select_upt[of "nat nt" xs 0] by (simp add: py_range_upt)
  show "select xs (py_range nt (nt + nv)) = Inr (take (nat nv) (drop (nat nt) xs))"
    using assms select_upt[of "nat (nt + nv)" xs "nat nt"] by (simp add: py_range_upt nat_add_distrib)
  show "select xs (py_range (nt + nv) (int (length xs))) = Inr (drop (nat nt + nat nv) xs)"
    using assms select_upt[of "length xs" xs "nat (nt + nv)"] by (simp add: py_range_upt nat_add_distrib)
qed

lemma shuffle_loop_length: "length (fst (shuffle_loop rnd k g x)) = length x"
  by (induction k arbitrary: g x) (auto simp: Let_def split: prod.splits)

lemma shuffle_length: "length (fst (shuffle rnd g x)) = length x"
  by (simp add: shuffle_def shuffle_loop_length)

lemma partition_files_slices:
  assumes "0 \<le> py_int (real (length files) * train_r)"
    and "0 \<le> py_int (real (length files) * val_r)"
    and "py_int (real (length files) * train_r) + py_int (real (length files) * val_r)
           \<le> int (length files)"
  shows "partition_files rnd g0 seed_arg files train_r val_r =
           (let xs = fst (shuffle rnd (random_seed rnd seed_arg) files);
                nt = nat (py_int (real (length files) * train_r));
                nv = nat (py_int (real (length files) * val_r))
            in Inr (take nt xs, take nv (drop nt xs), drop (nt + nv) xs))"
proof -
  obtain xs g2 where sh: "shuffle rnd (random_seed rnd seed_arg) files = (xs, g2)"
    by (cases "shuffle rnd (random_seed rnd seed_arg) files")
  have len: "length xs = length files"
    using shuffle_length[of rnd "random_seed rnd seed_arg" files] sh by simp
  let ?nt = "py_int (real (length files) * train_r)"
  let ?nv = "py_int (real (length files) * val_r)"
  have fit: "?nt + ?nv \<le> int (length xs)" using assms(3) len by simp
  note sl = split_slices[OF assms(1) assms(2) fit]
  show ?thesis
    using sh sl len
    by (simp add: partition_files_def split_indices_def Let_def)
qed

lemma counts_fit_of_ratios:
  assumes "0 \<le> r1" "0 \<le> r2" "r1 + r2 \<le> 1"
  shows "0 \<le> py_int (real n * r1)" "0 \<le> py_int (real n * r2)"
    "py_int (real n * r1) + py_int (real n * r2) \<le> int n"
proof -
  have a: "0 \<le> real n * r1" "0 \<le> real n * r2" using assms by simp_all
  then show "0 \<le> py_int (real n * r1)" "0 \<le> py_int (real n * r2)"
    by (simp_all add: py_int_def)
  have "real n * r1 + real n * r2 \<le> real n"
  proof -
    have "real n * (r1 + r2) \<le> real n * 1"
      using assms(3) by (intro mult_left_mono) simp_all
    then show ?thesis by (simp add: distrib_left)
  qed
  moreover have "real_of_int \<lfloor>real n * r1\<rfloor> \<le> real n * r1" "real_of_int \<lfloor>real n * r2\<rfloor> \<le> real n * r2"
    by simp_all
  ultimately have "real_of_int (\<lfloor>real n * r1\<rfloor> + \<lfloor>real n * r2\<rfloor>) \<le> real n"
    unfolding of_int_add by linarith
  then have "\<lfloor>real n * r1\<rfloor> + \<lfloor>real n * r2\<rfloor> \<le> int n" by linarith
  then show "py_int (real n * r1) + py_int (real n * r2) \<le> int n"
    using a by (simp add: py_int_def)
qed

lemmas split_eval_simps =
  partition_files_def shuffle_def split_indices_def py_int_def py_range_def py_index_def
  validate_ratios_def counting_random_def Let_def ceiling_minus upto_rec1

text \<open>
  C1, as stated, fails: \<^verbatim>\<open>validate_ratios\<close> checks the sum only, and accepts the ratios
  \<open>(-1, 1, 1)\<close>. With one file, \<^verbatim>\<open>split_indices\<close> gives the index lists \<open>[]\<close>, \<open>[-1]\<close> and \<open>[0]\<close>,
  and the file is in the validation subset and in the test subset.
\<close>

theorem partition_not_disjoint_counterexample:
  "validate_ratios (- 1) 1 1 = Inr ()
   \<and> partition_files counting_random 0 42 [''a.jpg''] (- 1) 1 =
       Inr ([], [''a.jpg''], [''a.jpg''])"
  by (simp add: split_eval_simps)

text \<open>
  C1, amended. When the two truncated counts \<^verbatim>\<open>int(n * train_r)\<close> and \<^verbatim>\<open>int(n * val_r)\<close> are not
  negative and their sum is at most \<open>n\<close> (so for all ratios that are not negative with
  \<open>train_r + val_r \<le> 1\<close>, by \<open>counts_fit_of_ratios\<close>), and the generator draws below its
  bound, the split returns three subsets that together hold every file of the input once
  for each of its occurrences: no file is dropped, none is in two subsets.
\<close>

theorem partition_disjoint_cover:
  assumes "\<forall>g n. 0 < n \<longrightarrow> fst (randbelow rnd g n) < n"
    and "0 \<le> py_int (real (length files) * train_r)"
    and "0 \<le> py_int (real (length files) * val_r)"
    and "py_int (real (length files) * train_r) + py_int (real (length files) * val_r)
           \<le> int (length files)"
  shows "\<exists>train val test.
           partition_files rnd g0 seed_arg files train_r val_r = Inr (train, val, test)
           \<and> mset train + mset val + mset test = mset files
           \<and> (distinct files \<longrightarrow> distinct (train @ val @ test))"
proof -
  let ?xs = "fst (shuffle rnd (random_seed rnd seed_arg) files)"
  let ?nt = "nat (py_int (real (length files) * train_r))"
  let ?nv = "nat (py_int (real (length files) * val_r))"
  have pf: "partition_files rnd g0 seed_arg files train_r val_r =
          Inr (take ?nt ?xs, take ?nv (drop ?nt ?xs), drop (?nt + ?nv) ?xs)"
    using partition_files_slices[OF assms(2-4)] by (simp add: Let_def)
  have cat: "take ?nt ?xs @ take ?nv (drop ?nt ?xs) @ drop (?nt + ?nv) ?xs = ?xs"
  proof -
    have "(take ?nt ?xs @ take ?nv (drop ?nt ?xs)) @ drop (?nt + ?nv) ?xs = ?xs"
      unfolding take_add[symmetric] by (rule append_take_drop_id)
    then show ?thesis by simp
  qed
  have ms: "mset ?xs = mset files" using shuffle_mset[OF assms(1)] .
  have "mset (take ?nt ?xs) + mset (take ?nv (drop ?nt ?xs)) + mset (drop (?nt + ?nv) ?xs)
         = mset (take ?nt ?xs @ take ?nv (drop ?nt ?xs) @ drop (?nt + ?nv) ?xs)"
    by (simp add: ac_simps)
  then have m: "mset (take ?nt ?xs) + mset (take ?nv (drop ?nt ?xs)) + mset (drop (?nt + ?nv) ?xs)
         = mset files"
    using cat ms by simp
  have d: "distinct files \<longrightarrow>
       distinct (take ?nt ?xs @ take ?nv (drop ?nt ?xs) @ drop (?nt + ?nv) ?xs)"
  proof
    assume "distinct files"
    then have "distinct ?xs" using ms mset_eq_imp_distinct_iff by blast
    then show "distinct (take ?nt ?xs @ take ?nv (drop ?nt ?xs) @ drop (?nt + ?nv) ?xs)"
      using cat by simp
  qed
  show ?thesis using pf m d by blast
qed

theorem partition_disjoint_cover_witness:
  "\<exists>train val test.
      partition_files counting_random 0 42 ten_files (7 / 10) (2 / 10) = Inr (train, val, test)
      \<and> mset train + mset val + mset test = mset ten_files
      \<and> distinct (train @ val @ test)"
proof -
  have h1: "\<forall>g n. 0 < n \<longrightarrow> fst (randbelow counting_random g n) < n"
    by (simp add: counting_random_def)
  have h2: "0 \<le> py_int (real (length ten_files) * (7 / 10))"
    by (simp add: ten_files_def py_int_def)
  have h3: "0 \<le> py_int (real (length ten_files) * (2 / 10))"
    by (simp add: ten_files_def py_int_def)
  have h4: "py_int (real (length ten_files) * (7 / 10)) + py_int (real (length ten_files) * (2 / 10))
         \<le> int (length ten_files)"
    by (simp add: ten_files_def py_int_def)
  have d: "distinct ten_files"
    by (simp add: ten_files_def)
  obtain train val test where
    "partition_files counting_random 0 42 ten_files (7 / 10) (2 / 10) = Inr (train, val, test)"
    "mset train + mset val + mset test = mset ten_files"
    "distinct ten_files \<longrightarrow> distinct (train @ val @ test)"
    using partition_disjoint_cover [OF h1 h2 h3 h4, of 0 42] by (elim exE conjE)
  then show ?thesis using d by (intro exI conjI) simp_all
qed







text \<open>
  C9. \<^verbatim>\<open>random.seed(args.seed)\<close> replaces the state of the generator before the shuffle, so
  two runs with the same seed, the same file list and the same ratios give the same three
  subsets, and the same whole run, whatever the state of the generator was before each.
\<close>

theorem same_seed_same_partition:
  "partition_files rnd g0 seed_arg files train_r val_r =
     partition_files rnd g0' seed_arg files train_r val_r
   \<and> main_split rnd sh args listing g0 fs = main_split rnd sh args listing g0' fs"
  unfolding partition_files_def main_split_def by simp

theorem same_seed_same_partition_witness:
  "partition_files counting_random 0 42 ten_files (7 / 10) (2 / 10) =
     partition_files counting_random 7 42 ten_files (7 / 10) (2 / 10)"
  using same_seed_same_partition [of counting_random 0 42 ten_files "7 / 10" "2 / 10" 7]
  by (rule conjunct1)

section \<open>Properties of resolve\_collision\<close>

lemma digit_char_inj:
  assumes "d < 10" "e < 10" "digit_char d = digit_char e"
  shows "d = e"
proof -
  have "distinct ''0123456789''" by simp
  moreover have "d < length ''0123456789''" "e < length ''0123456789''" using assms by simp_all
  ultimately show ?thesis
    using assms(3) unfolding digit_char_def by (simp only: nth_eq_iff_index_eq)
qed

lemma str_nat_nonempty: "str_nat n \<noteq> []"
  by (subst str_nat.simps) simp

lemma str_nat_inj: "str_nat n = str_nat m \<Longrightarrow> n = m"
proof (induction n arbitrary: m rule: str_nat.induct)
  case (1 n)
  show ?case
  proof (cases "n < 10")
    case n: True
    show ?thesis
    proof (cases "m < 10")
      case True
      with n "1.prems" show ?thesis
        by (simp add: str_nat.simps[of n] str_nat.simps[of m] digit_char_inj)
    next
      case False
      with n "1.prems" have "[digit_char n] = str_nat (m div 10) @ [digit_char (m mod 10)]"
        by (simp add: str_nat.simps[of n] str_nat.simps[of m])
      then show ?thesis using str_nat_nonempty[of "m div 10"] by simp
    qed
  next
    case n: False
    show ?thesis
    proof (cases "m < 10")
      case True
      with n "1.prems" have "str_nat (n div 10) @ [digit_char (n mod 10)] = [digit_char m]"
        by (simp add: str_nat.simps[of n] str_nat.simps[of m])
      then show ?thesis using str_nat_nonempty[of "n div 10"] by simp
    next
      case False
      with n "1.prems" have eq: "str_nat (n div 10) @ [digit_char (n mod 10)] =
          str_nat (m div 10) @ [digit_char (m mod 10)]"
        by (simp add: str_nat.simps[of n] str_nat.simps[of m])
      then have a: "str_nat (n div 10) = str_nat (m div 10)"
        and b: "digit_char (n mod 10) = digit_char (m mod 10)" by simp_all
      have "n div 10 = m div 10" using "1.IH"[OF n a] .
      moreover have "n mod 10 = m mod 10" using b by (intro digit_char_inj) simp_all
      ultimately show ?thesis by (metis div_mult_mod_eq)
    qed
  qed
qed

lemma candidate_inj: "candidate base ext i = candidate base ext j \<Longrightarrow> i = j"
  by (simp add: candidate_def str_nat_inj)

lemma taken_finite:
  assumes "finite (dom fs)"
  shows "finite {n. path_exists fs (candidate base ext n)}"
proof -
  have "candidate base ext ` {n. path_exists fs (candidate base ext n)} \<subseteq> dom fs"
    by (auto simp: path_exists_def)
  then have "finite (candidate base ext ` {n. path_exists fs (candidate base ext n)})"
    using assms finite_subset by blast
  moreover have "inj_on (candidate base ext) {n. path_exists fs (candidate base ext n)}"
    by (auto simp: inj_on_def dest: candidate_inj)
  ultimately show ?thesis by (rule finite_imageD)
qed

lemma resolve_loop_first_free:
  assumes "finite (dom fs)"
  shows "\<exists>n\<ge>idx. resolve_loop fs base ext idx = Some (candidate base ext n)
           \<and> \<not> path_exists fs (candidate base ext n)
           \<and> (\<forall>m. idx \<le> m \<and> m < n \<longrightarrow> path_exists fs (candidate base ext m))"
proof -
  obtain B where B: "\<forall>n \<in> {n. path_exists fs (candidate base ext n)}. n < B"
    using taken_finite[OF assms, of base ext] finite_nat_set_iff_bounded by blast
  show ?thesis
  proof (induction "B - idx" arbitrary: idx rule: less_induct)
    case less
    show ?case
    proof (cases "path_exists fs (candidate base ext idx)")
      case False
      then have "resolve_loop fs base ext idx = Some (candidate base ext idx)"
        by (subst resolve_loop.simps) (simp add: Let_def)
      with False show ?thesis by auto
    next
      case True
      then have "idx < B" using B by simp
      then have "B - (idx + 1) < B - idx" by simp
      from less[OF this] obtain n where n: "n \<ge> idx + 1"
        "resolve_loop fs base ext (idx + 1) = Some (candidate base ext n)"
        "\<not> path_exists fs (candidate base ext n)"
        "\<forall>m. idx + 1 \<le> m \<and> m < n \<longrightarrow> path_exists fs (candidate base ext m)"
        by blast
      have "resolve_loop fs base ext idx = resolve_loop fs base ext (idx + 1)"
        using True by (subst resolve_loop.simps) (simp add: Let_def)
      moreover have "\<forall>m. idx \<le> m \<and> m < n \<longrightarrow> path_exists fs (candidate base ext m)"
      proof (intro allI impI)
        fix m assume "idx \<le> m \<and> m < n"
        then show "path_exists fs (candidate base ext m)"
          using True n(4) by (cases "m = idx") auto
      qed
      ultimately show ?thesis using n by (intro exI[of _ n]) auto
    qed
  qed
qed

lemma rename_example:
  "resolve_collision rename_fs ''img_001.jpg'' = Some ''img_001_3.jpg''"
  by (simp add: resolve_collision_def splitext_def rfind_def resolve_loop.simps Let_def
        candidate_def path_exists_def rename_fs_def str_nat.simps digit_char_def)

lemma rename_example_dir:
  "resolve_collision rename_fs ''./img_001.jpg'' = Some ''./img_001_3.jpg''"
  by (simp add: resolve_collision_def splitext_def rfind_def resolve_loop.simps Let_def
        candidate_def path_exists_def rename_fs_def str_nat.simps digit_char_def)

text \<open>
  C8. On a file system with finitely many paths \<^verbatim>\<open>resolve_collision\<close> returns: its result is
  the stem of the target, \<open>_n\<close> and the extension of the target, for the least \<open>n \<ge> 1\<close> whose
  path does not exist. The result depends on the file system through the set of existing
  paths only. With \<open>img_001_1.jpg\<close> and \<open>img_001_2.jpg\<close> present, a collision on \<open>img_001.jpg\<close>
  resolves to \<open>img_001_3.jpg\<close>.
\<close>

theorem resolve_collision_first_free:
  assumes "finite (dom fs)"
  shows "(\<exists>n\<ge>1.
            resolve_collision fs target_path =
              Some (fst (splitext target_path) @ ''_'' @ str_nat n @ snd (splitext target_path))
            \<and> \<not> path_exists fs
                  (fst (splitext target_path) @ ''_'' @ str_nat n @ snd (splitext target_path))
            \<and> (\<forall>m. 1 \<le> m \<and> m < n \<longrightarrow>
                  path_exists fs
                    (fst (splitext target_path) @ ''_'' @ str_nat m @ snd (splitext target_path))))
         \<and> (\<forall>fs'. dom fs' = dom fs \<longrightarrow>
               resolve_collision fs' target_path = resolve_collision fs target_path)
         \<and> resolve_collision rename_fs ''img_001.jpg'' = Some ''img_001_3.jpg''
         \<and> resolve_collision rename_fs ''./img_001.jpg'' = Some ''./img_001_3.jpg''"
proof (intro conjI)
  obtain base ext where be: "splitext target_path = (base, ext)" by (cases "splitext target_path")
  obtain n where n: "n \<ge> 1" "resolve_loop fs base ext 1 = Some (candidate base ext n)"
    "\<not> path_exists fs (candidate base ext n)"
    "\<forall>m. 1 \<le> m \<and> m < n \<longrightarrow> path_exists fs (candidate base ext m)"
    using resolve_loop_first_free[OF assms, of 1 base ext] by blast
  show "\<exists>n\<ge>1.
            resolve_collision fs target_path =
              Some (fst (splitext target_path) @ ''_'' @ str_nat n @ snd (splitext target_path))
            \<and> \<not> path_exists fs
                  (fst (splitext target_path) @ ''_'' @ str_nat n @ snd (splitext target_path))
            \<and> (\<forall>m. 1 \<le> m \<and> m < n \<longrightarrow>
                  path_exists fs
                    (fst (splitext target_path) @ ''_'' @ str_nat m @ snd (splitext target_path)))"
    using n be by (intro exI[of _ n]) (simp add: resolve_collision_def candidate_def)
  show "\<forall>fs'. dom fs' = dom fs \<longrightarrow>
               resolve_collision fs' target_path = resolve_collision fs target_path"
  proof (intro allI impI)
    fix fs' :: filesystem assume d: "dom fs' = dom fs"
    then have fin: "finite (dom fs')" using assms by simp
    have pe: "path_exists fs' p = path_exists fs p" for p
      using d by (auto simp: path_exists_def domIff[symmetric] simp del: domIff)
    obtain n' where n': "n' \<ge> 1" "resolve_loop fs' base ext 1 = Some (candidate base ext n')"
      "\<not> path_exists fs' (candidate base ext n')"
      "\<forall>m. 1 \<le> m \<and> m < n' \<longrightarrow> path_exists fs' (candidate base ext m)"
      using resolve_loop_first_free[OF fin, of 1 base ext] by blast
    have "\<not> n < n'" using n(1,3) n'(4) pe by auto
    moreover have "\<not> n' < n" using n'(1,3) n(4) pe by auto
    ultimately have "n' = n" by simp
    then show "resolve_collision fs' target_path = resolve_collision fs target_path"
      using n(2) n'(2) be by (simp add: resolve_collision_def)
  qed
  show "resolve_collision rename_fs ''img_001.jpg'' = Some ''img_001_3.jpg''"
    by (rule rename_example)
  show "resolve_collision rename_fs ''./img_001.jpg'' = Some ''./img_001_3.jpg''"
    by (rule rename_example_dir)
qed

theorem resolve_collision_first_free_witness:
  "finite (dom rename_fs)
   \<and> (\<exists>n\<ge>1.
         resolve_collision rename_fs ''img_001.jpg'' = Some (''img_001'' @ ''_'' @ str_nat n @ ''.jpg'')
         \<and> \<not> path_exists rename_fs (''img_001'' @ ''_'' @ str_nat n @ ''.jpg'')
         \<and> (\<forall>m. 1 \<le> m \<and> m < n \<longrightarrow>
               path_exists rename_fs (''img_001'' @ ''_'' @ str_nat m @ ''.jpg'')))
   \<and> resolve_collision rename_fs ''img_001.jpg'' = Some ''img_001_3.jpg''"
proof -
  have fin: "finite (dom rename_fs)"
    by (simp add: rename_fs_def finite_dom_map_of)
  have sp: "splitext ''img_001.jpg'' = (''img_001'', ''.jpg'')"
    by (simp add: splitext_def rfind_def)
  note t = resolve_collision_first_free [OF fin, of "''img_001.jpg''"]
  have a: "\<exists>n\<ge>1.
         resolve_collision rename_fs ''img_001.jpg'' = Some (''img_001'' @ ''_'' @ str_nat n @ ''.jpg'')
         \<and> \<not> path_exists rename_fs (''img_001'' @ ''_'' @ str_nat n @ ''.jpg'')
         \<and> (\<forall>m. 1 \<le> m \<and> m < n \<longrightarrow>
               path_exists rename_fs (''img_001'' @ ''_'' @ str_nat m @ ''.jpg''))"
    using t [THEN conjunct1] unfolding sp fst_conv snd_conv .
  show ?thesis
    by (intro conjI fin a t [THEN conjunct2, THEN conjunct2, THEN conjunct1])
qed

end
